theory Spec2Isabelle
  imports Main
begin

section \<open>The thread queue of \<^verbatim>\<open>thread_queue.h\<close>\<close>

text \<open>
  The class \<^verbatim>\<open>mqtt::thread_queue<T, Container>\<close> keeps three data members behind one
  mutex: the capacity \<^verbatim>\<open>cap_\<close>, the flag \<^verbatim>\<open>closed_\<close> and the container \<^verbatim>\<open>que_\<close>.
  Every member function holds the mutex for its whole body, so each call acts on the
  members atomically, except that a call inside a condition-variable wait gives the mutex
  up until it is woken.

  The members are the fields of a record (an identifier cannot end in an underscore here,
  so the trailing underscore of the C++ names is dropped). \<^verbatim>\<open>std::queue\<close> over a deque
  is a list with its front at the head: \<^verbatim>\<open>emplace\<close> appends at the back, \<^verbatim>\<open>front\<close>
  reads the head and \<^verbatim>\<open>pop\<close> removes it. The type \<^verbatim>\<open>size_type\<close> is only ever
  compared and passed to \<^verbatim>\<open>std::max\<close>, never used in arithmetic, so it is \<^typ>\<open>nat\<close>.
\<close>

record 'a thread_queue =
  cap :: nat
  closed :: bool
  que :: "'a list"

text \<open>The exception class \<^verbatim>\<open>queue_closed\<close>, the only exception the queue throws.\<close>

datatype exn = queue_closed

text \<open>
  How a call of a blocking member function ends: it returns a value, it throws, or it
  stays in its wait forever.
\<close>

datatype 'r outcome = Returns 'r | Throws exn | Blocks

text \<open>
  A destination \<^verbatim>\<open>value_type*\<close>: the null pointer, or a pointer to a variable, given
  by the value that variable holds.
\<close>

datatype 'a ptr = nullptr | Ptr 'a

subsection \<open>Condition variables\<close>

text \<open>
  \<^verbatim>\<open>std::condition_variable::wait(lock, pred)\<close> is \<^verbatim>\<open>while (!pred()) wait(lock);\<close>:
  the predicate is tested with the mutex held; while it is false the mutex is released,
  other threads act on the queue, and the predicate is tested again after a wake-up.
  What the other threads do while the caller waits is the list \<open>es\<close>, one entry for each
  change of the queue that the caller observes. When the list is used up and the
  predicate is still false, nothing will ever wake the caller: the wait does not return.
  The result is whether the wait returned, and the queue as the caller sees it last.
  With \<open>es = []\<close> the caller is the only thread.

  \<^verbatim>\<open>wait_until(lock, abs_time, pred)\<close> is the same loop, left at the deadline with the
  value of \<^verbatim>\<open>pred()\<close>; there \<open>es\<close> is what the other threads do before the deadline.
  \<^verbatim>\<open>wait_for(lock, rel_time, pred)\<close> is \<^verbatim>\<open>wait_until(lock, now + rel_time, pred)\<close>.
  The \<^verbatim>\<open>notify_one\<close> and \<^verbatim>\<open>notify_all\<close> calls change no member: they decide which
  waiting threads test their predicate again, so they do not appear below.
\<close>

fun wait :: "('s \<Rightarrow> bool) \<Rightarrow> ('s \<Rightarrow> 's) list \<Rightarrow> 's \<Rightarrow> bool \<times> 's" where
  "wait pred [] s = (pred s, s)"
| "wait pred (e # es) s = (if pred s then (True, s) else wait pred es (e s))"

fun wait_until :: "('s \<Rightarrow> bool) \<Rightarrow> ('s \<Rightarrow> 's) list \<Rightarrow> 's \<Rightarrow> bool \<times> 's" where
  "wait_until pred [] s = (pred s, s)"
| "wait_until pred (e # es) s = (if pred s then (True, s) else wait_until pred es (e s))"

definition wait_for :: "('s \<Rightarrow> bool) \<Rightarrow> ('s \<Rightarrow> 's) list \<Rightarrow> 's \<Rightarrow> bool \<times> 's" where
  "wait_for pred es s = wait_until pred es s"

subsection \<open>Construction and observers\<close>

text \<open>
  \<^verbatim>\<open>MAX_CAPACITY\<close> is \<^verbatim>\<open>std::numeric_limits<size_type>::max()\<close>, which depends on the
  container and the platform: the default constructor takes it as a parameter. The
  other constructor takes a \<^verbatim>\<open>size_t\<close> and converts it to \<^verbatim>\<open>size_type\<close> before the
  maximum; for the default container \<^verbatim>\<open>std::deque\<close> the two types are the same and
  the conversion changes nothing, which is the case modelled.
\<close>

definition thread_queue_default :: "nat \<Rightarrow> 'a thread_queue" where
  "thread_queue_default MAX_CAPACITY = \<lparr>cap = MAX_CAPACITY, closed = False, que = []\<rparr>"

definition thread_queue_cap :: "nat \<Rightarrow> 'a thread_queue" where
  "thread_queue_cap c = \<lparr>cap = max c 1, closed = False, que = []\<rparr>"

definition is_done :: "'a thread_queue \<Rightarrow> bool" where
  "is_done q = (closed q \<and> que q = [])"

definition empty_q :: "'a thread_queue \<Rightarrow> bool" where
  "empty_q q = (que q = [])"

definition capacity :: "'a thread_queue \<Rightarrow> nat" where
  "capacity q = cap q"

definition size_q :: "'a thread_queue \<Rightarrow> nat" where
  "size_q q = length (que q)"

text \<open>The observer \<^verbatim>\<open>closed()\<close> returns \<^verbatim>\<open>closed_\<close>: it is the field \<^const>\<open>closed\<close>.\<close>

definition done_q :: "'a thread_queue \<Rightarrow> bool" where
  "done_q q = is_done q"

subsection \<open>Administrative operations\<close>

definition capacity_set :: "nat \<Rightarrow> 'a thread_queue \<Rightarrow> 'a thread_queue" where
  "capacity_set c q = q\<lparr>cap := max c 1\<rparr>"

definition close :: "'a thread_queue \<Rightarrow> 'a thread_queue" where
  "close q = q\<lparr>closed := True\<rparr>"

text \<open>The loop \<^verbatim>\<open>while (!que_.empty()) que_.pop();\<close> of \<^verbatim>\<open>clear\<close>.\<close>

fun pop_all :: "'a list \<Rightarrow> 'a list" where
  "pop_all [] = []"
| "pop_all (x # xs) = pop_all xs"

definition clear :: "'a thread_queue \<Rightarrow> 'a thread_queue" where
  "clear q = q\<lparr>que := pop_all (que q)\<rparr>"

subsection \<open>Enqueuing\<close>

text \<open>The predicate of every wait on \<^verbatim>\<open>notFullCond_\<close>.\<close>

definition not_full :: "'a thread_queue \<Rightarrow> bool" where
  "not_full q = (length (que q) < cap q \<or> closed q)"

definition put ::
  "('a thread_queue \<Rightarrow> 'a thread_queue) list \<Rightarrow> 'a \<Rightarrow> 'a thread_queue
     \<Rightarrow> unit outcome \<times> 'a thread_queue" where
  "put es val q =
     (case wait not_full es q of
        (False, q') \<Rightarrow> (Blocks, q')
      | (True, q') \<Rightarrow>
          if closed q' then (Throws queue_closed, q')
          else (Returns (), q'\<lparr>que := que q' @ [val]\<rparr>))"

definition try_put :: "'a \<Rightarrow> 'a thread_queue \<Rightarrow> bool \<times> 'a thread_queue" where
  "try_put val q =
     (if length (que q) \<ge> cap q \<or> closed q then (False, q)
      else (True, q\<lparr>que := que q @ [val]\<rparr>))"

definition try_put_for ::
  "('a thread_queue \<Rightarrow> 'a thread_queue) list \<Rightarrow> 'a \<Rightarrow> 'a thread_queue
     \<Rightarrow> bool \<times> 'a thread_queue" where
  "try_put_for es val q =
     (case wait_for not_full es q of
        (ok, q') \<Rightarrow>
          let to = \<not> ok in
          if to \<or> closed q' then (False, q')
          else (True, q'\<lparr>que := que q' @ [val]\<rparr>))"

definition try_put_until ::
  "('a thread_queue \<Rightarrow> 'a thread_queue) list \<Rightarrow> 'a \<Rightarrow> 'a thread_queue
     \<Rightarrow> bool \<times> 'a thread_queue" where
  "try_put_until es val q =
     (case wait_until not_full es q of
        (ok, q') \<Rightarrow>
          let to = \<not> ok in
          if to \<or> closed q' then (False, q')
          else (True, q'\<lparr>que := que q' @ [val]\<rparr>))"

subsection \<open>Dequeuing\<close>

text \<open>The predicate of every wait on \<^verbatim>\<open>notEmptyCond_\<close>.\<close>

definition not_empty :: "'a thread_queue \<Rightarrow> bool" where
  "not_empty q = (que q \<noteq> [] \<or> closed q)"

text \<open>
  The pointer variants return the result, the destination after the call and the queue.
  They test the pointer before they take the mutex. The common tail
  \<^verbatim>\<open>*val = std::move(que_.front()); que_.pop(); return true;\<close> is written out in each.
\<close>

definition get_ptr ::
  "'a ptr \<Rightarrow> ('a thread_queue \<Rightarrow> 'a thread_queue) list \<Rightarrow> 'a thread_queue
     \<Rightarrow> bool outcome \<times> 'a ptr \<times> 'a thread_queue" where
  "get_ptr val es q =
     (case val of
        nullptr \<Rightarrow> (Returns False, val, q)
      | Ptr _ \<Rightarrow>
          (case wait not_empty es q of
             (False, q') \<Rightarrow> (Blocks, val, q')
           | (True, q') \<Rightarrow>
               (case que q' of
                  [] \<Rightarrow> (Returns False, val, q')
                | x # xs \<Rightarrow> (Returns True, Ptr x, q'\<lparr>que := xs\<rparr>))))"

definition get ::
  "('a thread_queue \<Rightarrow> 'a thread_queue) list \<Rightarrow> 'a thread_queue
     \<Rightarrow> 'a outcome \<times> 'a thread_queue" where
  "get es q =
     (case wait not_empty es q of
        (False, q') \<Rightarrow> (Blocks, q')
      | (True, q') \<Rightarrow>
          (case que q' of
             [] \<Rightarrow> (Throws queue_closed, q')
           | x # xs \<Rightarrow> (Returns x, q'\<lparr>que := xs\<rparr>)))"

definition try_get :: "'a ptr \<Rightarrow> 'a thread_queue \<Rightarrow> bool \<times> 'a ptr \<times> 'a thread_queue" where
  "try_get val q =
     (case val of
        nullptr \<Rightarrow> (False, val, q)
      | Ptr _ \<Rightarrow>
          (case que q of
             [] \<Rightarrow> (False, val, q)
           | x # xs \<Rightarrow> (True, Ptr x, q\<lparr>que := xs\<rparr>)))"

definition try_get_for ::
  "'a ptr \<Rightarrow> ('a thread_queue \<Rightarrow> 'a thread_queue) list \<Rightarrow> 'a thread_queue
     \<Rightarrow> bool \<times> 'a ptr \<times> 'a thread_queue" where
  "try_get_for val es q =
     (case val of
        nullptr \<Rightarrow> (False, val, q)
      | Ptr _ \<Rightarrow>
          (case wait_for not_empty es q of
             (_, q') \<Rightarrow>
               (case que q' of
                  [] \<Rightarrow> (False, val, q')
                | x # xs \<Rightarrow> (True, Ptr x, q'\<lparr>que := xs\<rparr>))))"

definition try_get_until ::
  "'a ptr \<Rightarrow> ('a thread_queue \<Rightarrow> 'a thread_queue) list \<Rightarrow> 'a thread_queue
     \<Rightarrow> bool \<times> 'a ptr \<times> 'a thread_queue" where
  "try_get_until val es q =
     (case val of
        nullptr \<Rightarrow> (False, val, q)
      | Ptr _ \<Rightarrow>
          (case wait_until not_empty es q of
             (_, q') \<Rightarrow>
               (case que q' of
                  [] \<Rightarrow> (False, val, q')
                | x # xs \<Rightarrow> (True, Ptr x, q'\<lparr>que := xs\<rparr>))))"

subsection \<open>Calls in sequence\<close>

text \<open>
  One thread calling \<^verbatim>\<open>put\<close> for each value of a list in turn, no other thread active.
  The result is the queue after the last call when every call returned normally; a call
  that throws or never returns ends the sequence without a result.
\<close>

fun puts :: "'a list \<Rightarrow> 'a thread_queue \<Rightarrow> 'a thread_queue option" where
  "puts [] q = Some q"
| "puts (v # vs) q =
     (case put [] v q of
        (Returns _, q') \<Rightarrow> puts vs q'
      | (Throws _, _) \<Rightarrow> None
      | (Blocks, _) \<Rightarrow> None)"

text \<open>The same with \<^verbatim>\<open>try_put\<close>, every call returning true.\<close>

fun try_puts :: "'a list \<Rightarrow> 'a thread_queue \<Rightarrow> 'a thread_queue option" where
  "try_puts [] q = Some q"
| "try_puts (v # vs) q =
     (case try_put v q of
        (True, q') \<Rightarrow> try_puts vs q'
      | (False, _) \<Rightarrow> None)"

text \<open>
  One thread calling \<^verbatim>\<open>get()\<close> \<open>n\<close> times, no other thread active, catching
  \<^verbatim>\<open>queue_closed\<close> and going on. The outcomes are listed in the order of the calls; a
  call that never returns is the last one.
\<close>

fun gets :: "nat \<Rightarrow> 'a thread_queue \<Rightarrow> 'a outcome list \<times> 'a thread_queue" where
  "gets 0 q = ([], q)"
| "gets (Suc n) q =
     (case get [] q of
        (Blocks, q') \<Rightarrow> ([Blocks], q')
      | (r, q') \<Rightarrow> (case gets n q' of (rs, q'') \<Rightarrow> (r # rs, q'')))"

subsection \<open>The operations as a datatype\<close>

text \<open>
  Every member function that can change the queue, and the queue it leaves behind (for
  a call that never returns: the queue as the caller sees it last). \<open>others\<close> turns the
  calls of other threads into the changes a waiting caller observes: each takes effect
  atomically, under the mutex, and a call whose own wait is not over changes nothing.
\<close>

datatype 'a op =
    Put 'a | Try_put 'a | Try_put_for 'a | Try_put_until 'a
  | Get | Get_ptr "'a ptr" | Try_get "'a ptr" | Try_get_for "'a ptr" | Try_get_until "'a ptr"
  | Clear | Capacity_set nat | Close

fun run ::
  "'a op \<Rightarrow> ('a thread_queue \<Rightarrow> 'a thread_queue) list \<Rightarrow> 'a thread_queue \<Rightarrow> 'a thread_queue" where
  "run (Put v) es q = snd (put es v q)"
| "run (Try_put v) es q = snd (try_put v q)"
| "run (Try_put_for v) es q = snd (try_put_for es v q)"
| "run (Try_put_until v) es q = snd (try_put_until es v q)"
| "run Get es q = snd (get es q)"
| "run (Get_ptr p) es q = snd (snd (get_ptr p es q))"
| "run (Try_get p) es q = snd (snd (try_get p q))"
| "run (Try_get_for p) es q = snd (snd (try_get_for p es q))"
| "run (Try_get_until p) es q = snd (snd (try_get_until p es q))"
| "run Clear es q = clear q"
| "run (Capacity_set c) es q = capacity_set c q"
| "run Close es q = close q"

definition others :: "'a op list \<Rightarrow> ('a thread_queue \<Rightarrow> 'a thread_queue) list" where
  "others os = map (\<lambda>call. run call []) os"

section \<open>Auxiliary facts\<close>

lemma pop_all_empty: "pop_all xs = []"
  by (induction xs) simp_all

lemma wait_until_eq_wait: "wait_until pred es s = wait pred es s"
  by (induction es arbitrary: s) simp_all

lemma wait_returns_pred: "wait pred es s = (True, s') \<Longrightarrow> pred s'"
  by (induction es arbitrary: s) (auto split: if_splits)

lemma wait_immediate: "pred s \<Longrightarrow> wait pred es s = (True, s)"
  by (cases es) simp_all

lemma wait_preserves:
  assumes "\<forall>e \<in> set es. \<forall>s. P s \<longrightarrow> P (e s)" and "P s"
  shows "P (snd (wait pred es s))"
  using assms by (induction es arbitrary: s) simp_all

text \<open>
  A wait gives up exactly when the predicate is false at the call and after each
  observed change.
\<close>

lemma wait_fails_iff:
  "fst (wait pred es s) = False \<longleftrightarrow> (\<forall>k \<le> length es. \<not> pred (fold (\<lambda>e. e) (take k es) s))"
proof (induction es arbitrary: s)
  case Nil
  then show ?case by simp
next
  case (Cons e es)
  show ?case
  proof (cases "pred s")
    case True
    then have "\<not> (\<forall>k \<le> length (e # es). \<not> pred (fold (\<lambda>e. e) (take k (e # es)) s))"
      by (auto intro: exI [of _ 0])
    with True show ?thesis by simp
  next
    case False
    have "(\<forall>k \<le> length (e # es). \<not> pred (fold (\<lambda>e. e) (take k (e # es)) s))
      \<longleftrightarrow> (\<forall>k \<le> length es. \<not> pred (fold (\<lambda>e. e) (take k es) (e s)))"
    proof
      assume h: "\<forall>k \<le> length (e # es). \<not> pred (fold (\<lambda>e. e) (take k (e # es)) s)"
      show "\<forall>k \<le> length es. \<not> pred (fold (\<lambda>e. e) (take k es) (e s))"
      proof (intro allI impI)
        fix k assume "k \<le> length es"
        then have "Suc k \<le> length (e # es)" by simp
        with h have "\<not> pred (fold (\<lambda>e. e) (take (Suc k) (e # es)) s)" by blast
        then show "\<not> pred (fold (\<lambda>e. e) (take k es) (e s))" by simp
      qed
    next
      assume h: "\<forall>k \<le> length es. \<not> pred (fold (\<lambda>e. e) (take k es) (e s))"
      show "\<forall>k \<le> length (e # es). \<not> pred (fold (\<lambda>e. e) (take k (e # es)) s)"
      proof (intro allI impI)
        fix k assume k: "k \<le> length (e # es)"
        show "\<not> pred (fold (\<lambda>e. e) (take k (e # es)) s)"
        proof (cases k)
          case 0
          with False show ?thesis by simp
        next
          case (Suc j)
          with k h show ?thesis by simp
        qed
      qed
    qed
    with False Cons.IH [of "e s"] show ?thesis by simp
  qed
qed

text \<open>With no other thread, a call that has to wait never returns.\<close>

lemma put_alone:
  "put [] v q =
     (if \<not> not_full q then (Blocks, q)
      else if closed q then (Throws queue_closed, q)
      else (Returns (), q\<lparr>que := que q @ [v]\<rparr>))"
  by (simp add: put_def)

lemma get_alone:
  "get [] q =
     (case que q of
        [] \<Rightarrow> if closed q then (Throws queue_closed, q) else (Blocks, q)
      | x # xs \<Rightarrow> (Returns x, q\<lparr>que := xs\<rparr>))"
  by (simp add: get_def not_empty_def split: list.splits)

lemma puts_state: "puts vs q = Some q1 \<Longrightarrow> q1 = q\<lparr>que := que q @ vs\<rparr>"
proof (induction vs arbitrary: q)
  case Nil
  then show ?case by simp
next
  case (Cons v vs)
  from Cons.prems obtain q' where
    step: "put [] v q = (Returns (), q')" and rest: "puts vs q' = Some q1"
    by (auto split: prod.splits outcome.splits)
  from step have "q' = q\<lparr>que := que q @ [v]\<rparr>"
    by (auto simp: put_alone split: if_splits)
  with Cons.IH [OF rest] show ?case by simp
qed

lemma puts_open: "puts vs q = Some q1 \<Longrightarrow> vs \<noteq> [] \<Longrightarrow> \<not> closed q"
  by (cases vs) (auto simp: put_alone split: prod.splits outcome.splits if_splits)

text \<open>An open queue with room for all the values takes them all.\<close>

lemma puts_succeed:
  "\<not> closed q \<Longrightarrow> length (que q) + length vs \<le> cap q \<Longrightarrow> puts vs q = Some (q\<lparr>que := que q @ vs\<rparr>)"
proof (induction vs arbitrary: q)
  case Nil
  then show ?case by simp
next
  case (Cons v vs)
  let ?q' = "q\<lparr>que := que q @ [v]\<rparr>"
  from Cons.prems have "put [] v q = (Returns (), ?q')"
    by (simp add: put_alone not_full_def)
  moreover from Cons.prems have "puts vs ?q' = Some (?q'\<lparr>que := que ?q' @ vs\<rparr>)"
    by (intro Cons.IH) simp_all
  ultimately show ?case by simp
qed

text \<open>As long as items are left, \<^verbatim>\<open>get()\<close> hands them out from the front.\<close>

lemma gets_front:
  "n \<le> length (que q) \<Longrightarrow> gets n q = (map Returns (take n (que q)), q\<lparr>que := drop n (que q)\<rparr>)"
proof (induction n arbitrary: q)
  case 0
  then show ?case by simp
next
  case (Suc n)
  then obtain x xs where xs: "que q = x # xs" by (cases "que q") auto
  let ?q' = "q\<lparr>que := xs\<rparr>"
  from xs have "get [] q = (Returns x, ?q')"
    by (simp add: get_alone)
  moreover from Suc.prems xs have "gets n ?q' = (map Returns (take n (que ?q')), ?q'\<lparr>que := drop n (que ?q')\<rparr>)"
    by (intro Suc.IH) simp
  ultimately show ?case using xs by simp
qed

lemma try_puts_state: "try_puts vs q = Some q1 \<Longrightarrow> q1 = q\<lparr>que := que q @ vs\<rparr>"
proof (induction vs arbitrary: q)
  case Nil
  then show ?case by simp
next
  case (Cons v vs)
  from Cons.prems have rest: "try_puts vs (q\<lparr>que := que q @ [v]\<rparr>) = Some q1"
    by (auto simp: try_put_def split: if_splits)
  from Cons.IH [OF rest] show ?case by simp
qed

section \<open>The claims\<close>

text \<open>
  C1 (close-then-drain). One thread puts the values \<open>vs\<close> into an empty queue, every
  call returning normally, and closes the queue. Then the next \<open>length vs\<close> calls of
  \<^verbatim>\<open>get()\<close> return the values in the order they were put, a further \<^verbatim>\<open>get()\<close> throws
  \<^verbatim>\<open>queue_closed\<close> (whatever other threads do meanwhile), and among the queues after
  \<open>0, 1, \<dots>, length vs\<close> of these calls \<^verbatim>\<open>done()\<close> holds of the last one only: it
  becomes true when the last item is removed, not before.
\<close>

theorem close_then_drain:
  assumes "que q = []" and "puts vs q = Some q1"
  shows "fst (gets (length vs) (close q1)) = map Returns vs
    \<and> fst (get es (snd (gets (length vs) (close q1)))) = Throws queue_closed
    \<and> (\<forall>k \<le> length vs. done_q (snd (gets k (close q1))) \<longleftrightarrow> k = length vs)"
proof -
  from assms have q1: "que q1 = vs"
    by (auto dest: puts_state)
  have drain: "gets k (close q1) = (map Returns (take k vs), (close q1)\<lparr>que := drop k vs\<rparr>)"
    if "k \<le> length vs" for k
    using that gets_front [of k "close q1"] q1 by (simp add: close_def)
  have first: "fst (gets (length vs) (close q1)) = map Returns vs"
    using drain [of "length vs"] by simp
  have "wait not_empty es ((close q1)\<lparr>que := []\<rparr>) = (True, (close q1)\<lparr>que := []\<rparr>)"
    by (rule wait_immediate) (simp add: not_empty_def close_def)
  then have after: "fst (get es (snd (gets (length vs) (close q1)))) = Throws queue_closed"
    using drain [of "length vs"] by (simp add: get_def)
  have "done_q (snd (gets k (close q1))) \<longleftrightarrow> k = length vs" if "k \<le> length vs" for k
    using that drain [of k] by (auto simp: done_q_def is_done_def close_def)
  with first after show ?thesis by blast
qed

theorem close_then_drain_witness:
  "que (thread_queue_cap 3 :: nat thread_queue) = []
    \<and> puts [7, 8, 9] (thread_queue_cap 3) = Some \<lparr>cap = 3, closed = False, que = [7, 8, 9 :: nat]\<rparr>
    \<and> fst (gets 3 (close \<lparr>cap = 3, closed = False, que = [7, 8, 9 :: nat]\<rparr>))
        = [Returns 7, Returns 8, Returns 9]
    \<and> fst (get [] (snd (gets 3 (close \<lparr>cap = 3, closed = False, que = [7, 8, 9 :: nat]\<rparr>))))
        = Throws queue_closed
    \<and> \<not> done_q (snd (gets 2 (close \<lparr>cap = 3, closed = False, que = [7, 8, 9 :: nat]\<rparr>)))
    \<and> done_q (snd (gets 3 (close \<lparr>cap = 3, closed = False, que = [7, 8, 9 :: nat]\<rparr>)))"
proof -
  have e: "que (thread_queue_cap 3 :: nat thread_queue) = []"
    by (simp add: thread_queue_cap_def)
  have p: "puts [7, 8, 9] (thread_queue_cap 3) = Some \<lparr>cap = 3, closed = False, que = [7, 8, 9 :: nat]\<rparr>"
    by (simp add: thread_queue_cap_def put_def not_full_def)
  from close_then_drain [OF e p, of "[]"] e p show ?thesis
    by (simp add: numeral_3_eq_3 get_alone close_def done_q_def is_done_def)
qed

text \<open>
  C2 (FIFO order). One thread puts the values \<open>vs\<close> into an empty queue, every call
  returning normally, and then calls \<^verbatim>\<open>get()\<close> as many times, no other thread active:
  the calls return the values in the order they were put, and the queue is empty again.
\<close>

theorem fifo_order:
  assumes "que q = []" and "puts vs q = Some q1"
  shows "gets (length vs) q1 = (map Returns vs, q)"
proof -
  from assms have q1: "q1 = q\<lparr>que := vs\<rparr>"
    by (auto dest: puts_state)
  then have "gets (length vs) q1 = (map Returns vs, q1\<lparr>que := []\<rparr>)"
    using gets_front [of "length vs" q1] by simp
  with q1 assms(1) show ?thesis by simp
qed

theorem fifo_order_witness:
  "que (thread_queue_cap 5 :: nat thread_queue) = []
    \<and> puts [4, 2, 4] (thread_queue_cap 5) = Some \<lparr>cap = 5, closed = False, que = [4, 2, 4 :: nat]\<rparr>
    \<and> gets 3 \<lparr>cap = 5, closed = False, que = [4, 2, 4 :: nat]\<rparr>
        = ([Returns 4, Returns 2, Returns 4], thread_queue_cap 5)"
proof -
  have e: "que (thread_queue_cap 5 :: nat thread_queue) = []"
    by (simp add: thread_queue_cap_def)
  have p: "puts [4, 2, 4] (thread_queue_cap 5) = Some \<lparr>cap = 5, closed = False, que = [4, 2, 4 :: nat]\<rparr>"
    by (simp add: thread_queue_cap_def put_def not_full_def)
  from fifo_order [OF e p] e p show ?thesis
    by (simp add: numeral_3_eq_3)
qed

text \<open>
  C3 (non-blocking enqueue). \<^verbatim>\<open>try_put\<close> returns false exactly when the queue holds at
  least \<^verbatim>\<open>cap_\<close> items or is closed, and then leaves the queue as it was; otherwise
  it returns true and the queue is the old one with the item appended at the back. In
  particular, when a queue of capacity \<open>C\<close> has taken \<open>C\<close> items by calls of \<^verbatim>\<open>try_put\<close>
  that all returned true, one more \<^verbatim>\<open>try_put\<close> returns false.
\<close>

theorem try_put_full_or_closed:
  "(fst (try_put v q) = False \<longleftrightarrow> size_q q \<ge> capacity q \<or> closed q)
    \<and> (fst (try_put v q) = False \<longrightarrow> snd (try_put v q) = q)
    \<and> (fst (try_put v q) = True \<longrightarrow> snd (try_put v q) = q\<lparr>que := que q @ [v]\<rparr>)
    \<and> (capacity q = C \<and> length vs = C \<and> try_puts vs q = Some q1 \<longrightarrow> fst (try_put v q1) = False)"
proof -
  have "fst (try_put v q1) = False" if "capacity q = C" "length vs = C" "try_puts vs q = Some q1"
  proof -
    from that(3) have "q1 = q\<lparr>que := que q @ vs\<rparr>" by (rule try_puts_state)
    with that(1,2) show ?thesis by (simp add: try_put_def capacity_def)
  qed
  then show ?thesis
    by (auto simp: try_put_def size_q_def capacity_def)
qed

theorem try_put_full_or_closed_witness:
  "capacity (thread_queue_cap 2 :: nat thread_queue) = 2 \<and> length [5, 6 :: nat] = 2
    \<and> try_puts [5, 6] (thread_queue_cap 2) = Some \<lparr>cap = 2, closed = False, que = [5, 6 :: nat]\<rparr>
    \<and> try_put 7 \<lparr>cap = 2, closed = False, que = [5, 6 :: nat]\<rparr>
        = (False, \<lparr>cap = 2, closed = False, que = [5, 6]\<rparr>)
    \<and> try_put 6 \<lparr>cap = 2, closed = False, que = [5 :: nat]\<rparr>
        = (True, \<lparr>cap = 2, closed = False, que = [5, 6]\<rparr>)"
proof -
  have c: "capacity (thread_queue_cap 2 :: nat thread_queue) = 2"
    by (simp add: capacity_def thread_queue_cap_def)
  have p: "try_puts [5, 6] (thread_queue_cap 2) = Some \<lparr>cap = 2, closed = False, que = [5, 6 :: nat]\<rparr>"
    by (simp add: thread_queue_cap_def try_put_def)
  have full: "fst (try_put 7 \<lparr>cap = 2, closed = False, que = [5, 6 :: nat]\<rparr>) = False"
    using try_put_full_or_closed [of 7 "thread_queue_cap 2" 2 "[5, 6]"
        "\<lparr>cap = 2, closed = False, que = [5, 6 :: nat]\<rparr>"] c p
    by simp
  have "snd (try_put 7 \<lparr>cap = 2, closed = False, que = [5, 6 :: nat]\<rparr>)
      = \<lparr>cap = 2, closed = False, que = [5, 6]\<rparr>"
    using try_put_full_or_closed [of 7 "\<lparr>cap = 2, closed = False, que = [5, 6 :: nat]\<rparr>"] full
    by blast
  with full have r1: "try_put 7 \<lparr>cap = 2, closed = False, que = [5, 6 :: nat]\<rparr>
      = (False, \<lparr>cap = 2, closed = False, que = [5, 6]\<rparr>)"
    by (simp add: prod_eq_iff)
  have room: "fst (try_put 6 \<lparr>cap = 2, closed = False, que = [5 :: nat]\<rparr>) = True"
    using try_put_full_or_closed [of 6 "\<lparr>cap = 2, closed = False, que = [5 :: nat]\<rparr>"]
    by (simp add: size_q_def capacity_def)
  then have "snd (try_put 6 \<lparr>cap = 2, closed = False, que = [5 :: nat]\<rparr>)
      = \<lparr>cap = 2, closed = False, que = [5, 6]\<rparr>"
    using try_put_full_or_closed [of 6 "\<lparr>cap = 2, closed = False, que = [5 :: nat]\<rparr>"]
    by simp
  with room have r2: "try_put 6 \<lparr>cap = 2, closed = False, que = [5 :: nat]\<rparr>
      = (True, \<lparr>cap = 2, closed = False, que = [5, 6]\<rparr>)"
    by (simp add: prod_eq_iff)
  from c p r1 r2 show ?thesis by simp
qed

text \<open>
  C4 (bounded-wait enqueue). Let the wait of \<^verbatim>\<open>try_put_for\<close> or \<^verbatim>\<open>try_put_until\<close> end
  with the queue \<open>q'\<close> and the result \<open>ok\<close>. The wait has timed out (\<open>ok\<close> is false)
  exactly when the queue was full and open at the call and after each change the caller
  observed before the deadline. The call returns false exactly when the wait timed out or
  \<open>q'\<close> is closed, whether it was closed at the call or became so during the wait, and
  then the queue is \<open>q'\<close>: the call itself has changed nothing. Otherwise it returns true
  and the queue is \<open>q'\<close> with the item appended. A queue closed at the call makes the
  call return false at once, and with no other thread active the queue after a false
  result is the queue at the call.
\<close>

theorem try_put_bounded_wait:
  assumes "wait_until not_full es q = (ok, q')"
    and "r = try_put_for es v q \<or> r = try_put_until es v q"
  shows "(fst r = False \<longleftrightarrow> \<not> ok \<or> closed q')
    \<and> (fst r = False \<longrightarrow> snd r = q')
    \<and> (fst r = True \<longrightarrow> snd r = q'\<lparr>que := que q' @ [v]\<rparr>)
    \<and> (\<not> ok \<longleftrightarrow> (\<forall>k \<le> length es. \<not> not_full (fold (\<lambda>e. e) (take k es) q)))
    \<and> (closed q \<longrightarrow> r = (False, q))
    \<and> (es = [] \<and> fst r = False \<longrightarrow> snd r = q)"
proof -
  from assms have r: "r = (if \<not> ok \<or> closed q' then (False, q') else (True, q'\<lparr>que := que q' @ [v]\<rparr>))"
    by (auto simp: try_put_for_def try_put_until_def wait_for_def)
  have timeout: "\<not> ok \<longleftrightarrow> (\<forall>k \<le> length es. \<not> not_full (fold (\<lambda>e. e) (take k es) q))"
    using wait_fails_iff [of not_full es q] assms(1) by (simp add: wait_until_eq_wait)
  have at_once: "r = (False, q)" if "closed q"
  proof -
    from that have "wait not_full es q = (True, q)"
      by (intro wait_immediate) (simp add: not_full_def)
    with assms(1) have "ok" "q' = q" by (simp_all add: wait_until_eq_wait)
    with r that show ?thesis by simp
  qed
  have alone: "snd r = q" if "es = []" "fst r = False"
    using that r assms(1) by (auto split: if_splits)
  from r timeout at_once alone show ?thesis
    by (auto split: if_splits)
qed

theorem try_put_bounded_wait_witness:
  "wait_until not_full [close] \<lparr>cap = 1, closed = False, que = [1 :: nat]\<rparr>
      = (True, \<lparr>cap = 1, closed = True, que = [1]\<rparr>)
    \<and> try_put_until [close] 2 \<lparr>cap = 1, closed = False, que = [1 :: nat]\<rparr>
      = (False, \<lparr>cap = 1, closed = True, que = [1]\<rparr>)
    \<and> wait_until not_full [] \<lparr>cap = 1, closed = False, que = [1 :: nat]\<rparr>
      = (False, \<lparr>cap = 1, closed = False, que = [1]\<rparr>)
    \<and> try_put_for [] 2 \<lparr>cap = 1, closed = False, que = [1 :: nat]\<rparr>
      = (False, \<lparr>cap = 1, closed = False, que = [1]\<rparr>)
    \<and> wait_until not_full [] \<lparr>cap = 2, closed = False, que = [1 :: nat]\<rparr>
      = (True, \<lparr>cap = 2, closed = False, que = [1]\<rparr>)
    \<and> try_put_for [] 2 \<lparr>cap = 2, closed = False, que = [1 :: nat]\<rparr>
      = (True, \<lparr>cap = 2, closed = False, que = [1, 2]\<rparr>)"
proof -
  have w1: "wait_until not_full [close] \<lparr>cap = 1, closed = False, que = [1 :: nat]\<rparr>
      = (True, \<lparr>cap = 1, closed = True, que = [1]\<rparr>)"
    by (simp add: not_full_def close_def)
  have w2: "wait_until not_full [] \<lparr>cap = 1, closed = False, que = [1 :: nat]\<rparr>
      = (False, \<lparr>cap = 1, closed = False, que = [1]\<rparr>)"
    by (simp add: not_full_def)
  have w3: "wait_until not_full [] \<lparr>cap = 2, closed = False, que = [1 :: nat]\<rparr>
      = (True, \<lparr>cap = 2, closed = False, que = [1]\<rparr>)"
    by (simp add: not_full_def)
  have r1: "try_put_until [close] 2 \<lparr>cap = 1, closed = False, que = [1 :: nat]\<rparr>
      = (False, \<lparr>cap = 1, closed = True, que = [1]\<rparr>)"
    using try_put_bounded_wait [OF w1, of "try_put_until [close] 2 \<lparr>cap = 1, closed = False, que = [1]\<rparr>" 2]
    by (simp add: prod_eq_iff)
  have r2: "try_put_for [] 2 \<lparr>cap = 1, closed = False, que = [1 :: nat]\<rparr>
      = (False, \<lparr>cap = 1, closed = False, que = [1]\<rparr>)"
    using try_put_bounded_wait [OF w2, of "try_put_for [] 2 \<lparr>cap = 1, closed = False, que = [1]\<rparr>" 2]
    by (simp add: prod_eq_iff)
  have r3: "try_put_for [] 2 \<lparr>cap = 2, closed = False, que = [1 :: nat]\<rparr>
      = (True, \<lparr>cap = 2, closed = False, que = [1, 2]\<rparr>)"
    using try_put_bounded_wait [OF w3, of "try_put_for [] 2 \<lparr>cap = 2, closed = False, que = [1]\<rparr>" 2]
    by (simp add: prod_eq_iff)
  from w1 w2 w3 r1 r2 r3 show ?thesis by blast
qed

text \<open>
  C5 (null destination). Each pointer-based dequeue, called with the null pointer,
  returns false at once: it does not wait, whatever other threads do, and the queue is
  the one at the call, with its items, capacity and closed flag. The call signals no
  error condition of its own: \<^verbatim>\<open>get(value_type*)\<close> returns and never throws, and the
  false it returns is the plain result that a valid destination gets from an empty queue
  (for the timed variants when the wait times out, for \<^verbatim>\<open>get(value_type*)\<close> when the
  queue is closed and drained).
\<close>

theorem null_destination_fails:
  "get_ptr nullptr es q = (Returns False, nullptr, q)
    \<and> try_get nullptr q = (False, nullptr, q)
    \<and> try_get_for nullptr es q = (False, nullptr, q)
    \<and> try_get_until nullptr es q = (False, nullptr, q)
    \<and> fst (get_ptr nullptr es q) \<noteq> Throws e
    \<and> (que q = [] \<longrightarrow>
          fst (try_get nullptr q) = fst (try_get (Ptr d) q)
        \<and> fst (try_get_for nullptr es q) = fst (try_get_for (Ptr d) [] q)
        \<and> fst (try_get_until nullptr es q) = fst (try_get_until (Ptr d) [] q))
    \<and> (is_done q \<longrightarrow> fst (get_ptr nullptr es q) = fst (get_ptr (Ptr d) es q))"
proof -
  have null: "get_ptr nullptr es q = (Returns False, nullptr, q)"
    "try_get nullptr q = (False, nullptr, q)"
    "try_get_for nullptr es q = (False, nullptr, q)"
    "try_get_until nullptr es q = (False, nullptr, q)"
    by (simp_all add: get_ptr_def try_get_def try_get_for_def try_get_until_def)
  have empty: "fst (try_get (Ptr d) q) = False"
    "fst (try_get_for (Ptr d) [] q) = False"
    "fst (try_get_until (Ptr d) [] q) = False" if "que q = []"
    using that by (simp_all add: try_get_def try_get_for_def try_get_until_def wait_for_def)
  have drained: "fst (get_ptr (Ptr d) es q) = Returns False" if "is_done q"
  proof -
    from that have "wait not_empty es q = (True, q)"
      by (intro wait_immediate) (simp add: not_empty_def is_done_def)
    with that show ?thesis by (simp add: get_ptr_def is_done_def)
  qed
  from null empty drained show ?thesis by simp
qed

theorem null_destination_fails_witness:
  "get_ptr nullptr [close] \<lparr>cap = 1, closed = False, que = [] :: nat list\<rparr>
      = (Returns False, nullptr, \<lparr>cap = 1, closed = False, que = []\<rparr>)
    \<and> try_get nullptr \<lparr>cap = 1, closed = False, que = [3 :: nat]\<rparr>
      = (False, nullptr, \<lparr>cap = 1, closed = False, que = [3]\<rparr>)
    \<and> try_get_for nullptr [close] \<lparr>cap = 1, closed = False, que = [3 :: nat]\<rparr>
      = (False, nullptr, \<lparr>cap = 1, closed = False, que = [3]\<rparr>)
    \<and> try_get_until nullptr [close] \<lparr>cap = 1, closed = False, que = [3 :: nat]\<rparr>
      = (False, nullptr, \<lparr>cap = 1, closed = False, que = [3]\<rparr>)
    \<and> que \<lparr>cap = 1, closed = False, que = [] :: nat list\<rparr> = []
    \<and> fst (try_get nullptr \<lparr>cap = 1, closed = False, que = [] :: nat list\<rparr>)
      = fst (try_get (Ptr 0) \<lparr>cap = 1, closed = False, que = [] :: nat list\<rparr>)
    \<and> fst (try_get_for nullptr [close] \<lparr>cap = 1, closed = False, que = [] :: nat list\<rparr>)
      = fst (try_get_for (Ptr 0) [] \<lparr>cap = 1, closed = False, que = [] :: nat list\<rparr>)
    \<and> fst (try_get_until nullptr [close] \<lparr>cap = 1, closed = False, que = [] :: nat list\<rparr>)
      = fst (try_get_until (Ptr 0) [] \<lparr>cap = 1, closed = False, que = [] :: nat list\<rparr>)
    \<and> is_done \<lparr>cap = 1, closed = True, que = [] :: nat list\<rparr>
    \<and> fst (get_ptr nullptr [close] \<lparr>cap = 1, closed = True, que = [] :: nat list\<rparr>)
      = fst (get_ptr (Ptr 0) [close] \<lparr>cap = 1, closed = True, que = [] :: nat list\<rparr>)"
proof -
  have e: "que \<lparr>cap = 1, closed = False, que = [] :: nat list\<rparr> = []" by simp
  have d: "is_done \<lparr>cap = 1, closed = True, que = [] :: nat list\<rparr>"
    by (simp add: is_done_def)
  from e d
    null_destination_fails [of "[close]" "\<lparr>cap = 1, closed = False, que = [] :: nat list\<rparr>" queue_closed 0]
    null_destination_fails [of "[close]" "\<lparr>cap = 1, closed = False, que = [3 :: nat]\<rparr>" queue_closed 0]
    null_destination_fails [of "[close]" "\<lparr>cap = 1, closed = True, que = [] :: nat list\<rparr>" queue_closed 0]
  show ?thesis by blast
qed

text \<open>
  The class has no invalid-argument error. On an open, empty queue of capacity 1 the
  null pointer makes \<^verbatim>\<open>get(value_type*)\<close> return false, not throw, and each variant
  gives with the null pointer the very result it gives with a valid destination: the
  non-blocking and the timed variants on this queue with no other thread active, the
  blocking one when another thread closes the queue during the wait.
\<close>

theorem null_destination_counterexample:
  "fst (get_ptr nullptr [] \<lparr>cap = 1, closed = False, que = [] :: nat list\<rparr>) = Returns False
    \<and> fst (get_ptr nullptr [] \<lparr>cap = 1, closed = False, que = [] :: nat list\<rparr>) \<noteq> Throws queue_closed
    \<and> fst (get_ptr nullptr [close] \<lparr>cap = 1, closed = False, que = [] :: nat list\<rparr>)
      = fst (get_ptr (Ptr 0) [close] \<lparr>cap = 1, closed = False, que = [] :: nat list\<rparr>)
    \<and> fst (try_get nullptr \<lparr>cap = 1, closed = False, que = [] :: nat list\<rparr>)
      = fst (try_get (Ptr 0) \<lparr>cap = 1, closed = False, que = [] :: nat list\<rparr>)
    \<and> fst (try_get_for nullptr [] \<lparr>cap = 1, closed = False, que = [] :: nat list\<rparr>)
      = fst (try_get_for (Ptr 0) [] \<lparr>cap = 1, closed = False, que = [] :: nat list\<rparr>)
    \<and> fst (try_get_until nullptr [] \<lparr>cap = 1, closed = False, que = [] :: nat list\<rparr>)
      = fst (try_get_until (Ptr 0) [] \<lparr>cap = 1, closed = False, que = [] :: nat list\<rparr>)"
  by (simp add: get_ptr_def try_get_def try_get_for_def try_get_until_def wait_for_def
      not_empty_def close_def)

text \<open>
  Every operation keeps the closed flag set, and keeps a queue that is closed and empty
  so, when the changes observed during its wait do.
\<close>

lemma run_closed:
  assumes "\<forall>e \<in> set es. \<forall>s. closed s \<longrightarrow> closed (e s)" and "closed q"
  shows "closed (run c es q)"
proof -
  have w: "closed (snd (wait pred es q))" for pred
    using assms by (rule wait_preserves)
  from w [of not_full] w [of not_empty] assms(2) show ?thesis
    by (cases c)
      (auto simp: put_def try_put_def try_put_for_def try_put_until_def get_def get_ptr_def
        try_get_def try_get_for_def try_get_until_def clear_def capacity_set_def close_def
        wait_for_def wait_until_eq_wait
        split: prod.splits bool.splits list.splits ptr.splits if_splits)
qed

lemma run_done:
  assumes "\<forall>e \<in> set es. \<forall>s. is_done s \<longrightarrow> is_done (e s)" and "is_done q"
  shows "is_done (run c es q)"
proof -
  have w: "is_done (snd (wait pred es q))" for pred
    using assms by (rule wait_preserves)
  from w [of not_full] w [of not_empty] assms(2) show ?thesis
    by (cases c)
      (auto simp: put_def try_put_def try_put_for_def try_put_until_def get_def get_ptr_def
        try_get_def try_get_for_def try_get_until_def clear_def capacity_set_def close_def
        wait_for_def wait_until_eq_wait is_done_def
        split: prod.splits bool.splits list.splits ptr.splits if_splits)
qed

lemma others_closed: "\<forall>e \<in> set (others os). \<forall>s. closed s \<longrightarrow> closed (e s)"
  by (auto simp: others_def intro: run_closed)

lemma others_done: "\<forall>e \<in> set (others os). \<forall>s. is_done s \<longrightarrow> is_done (e s)"
  by (auto simp: others_def intro: run_done)

text \<open>
  C6 (the closed flag is monotonic). Whatever operation a thread calls, and whatever
  operations other threads complete while it waits, a queue that was closed at the call
  is closed afterwards; and a queue that was done (closed and empty) is done afterwards:
  the state is terminal.
\<close>

theorem closed_monotonic:
  "(closed q \<longrightarrow> closed (run c (others os) q))
    \<and> (done_q q \<longrightarrow> done_q (run c (others os) q))"
proof -
  have "closed (run c (others os) q)" if "closed q"
    using others_closed that by (rule run_closed)
  moreover have "is_done (run c (others os) q)" if "is_done q"
    using others_done that by (rule run_done)
  ultimately show ?thesis by (simp add: done_q_def)
qed

theorem closed_monotonic_witness:
  "closed \<lparr>cap = 2, closed = True, que = [1 :: nat]\<rparr>
    \<and> closed (run (Put 5) (others [Get, Capacity_set 7, Clear]) \<lparr>cap = 2, closed = True, que = [1 :: nat]\<rparr>)
    \<and> done_q \<lparr>cap = 2, closed = True, que = [] :: nat list\<rparr>
    \<and> done_q (run (Try_get (Ptr 0)) (others [Try_put 4]) \<lparr>cap = 2, closed = True, que = [] :: nat list\<rparr>)"
proof -
  have c: "closed \<lparr>cap = 2, closed = True, que = [1 :: nat]\<rparr>" by simp
  have d: "done_q \<lparr>cap = 2, closed = True, que = [] :: nat list\<rparr>"
    by (simp add: done_q_def is_done_def)
  from c d
    closed_monotonic [of "\<lparr>cap = 2, closed = True, que = [1 :: nat]\<rparr>" "Put 5" "[Get, Capacity_set 7, Clear]"]
    closed_monotonic [of "\<lparr>cap = 2, closed = True, que = [] :: nat list\<rparr>" "Try_get (Ptr 0)" "[Try_put 4]"]
  show ?thesis by blast
qed

text \<open>
  C7 (the capacity setter never evicts). After \<^verbatim>\<open>capacity(n)\<close>, for any \<open>n\<close>, also one
  below the number of items held, the queue has the same items in the same order, so the
  same size, and the same closed flag; the capacity is \<open>max n 1\<close>. Only the admission of
  new items changes: \<^verbatim>\<open>try_put\<close> succeeds exactly when the queue is open and holds
  fewer than \<open>max n 1\<close> items, and a \<^verbatim>\<open>put\<close> by the only thread stays blocked exactly
  when the queue is open and holds at least that many.
\<close>

theorem capacity_set_never_evicts:
  "size_q (capacity_set n q) = size_q q
    \<and> que (capacity_set n q) = que q
    \<and> closed (capacity_set n q) = closed q
    \<and> capacity (capacity_set n q) = max n 1
    \<and> (fst (try_put v (capacity_set n q)) \<longleftrightarrow> size_q q < max n 1 \<and> \<not> closed q)
    \<and> (fst (put [] v (capacity_set n q)) = Blocks \<longleftrightarrow> size_q q \<ge> max n 1 \<and> \<not> closed q)"
  by (auto simp: capacity_set_def size_q_def capacity_def try_put_def put_alone not_full_def)

theorem capacity_set_never_evicts_witness:
  "size_q (capacity_set 2 \<lparr>cap = 9, closed = False, que = [1, 2, 3, 4, 5 :: nat]\<rparr>) = 5
    \<and> que (capacity_set 2 \<lparr>cap = 9, closed = False, que = [1, 2, 3, 4, 5 :: nat]\<rparr>) = [1, 2, 3, 4, 5]
    \<and> capacity (capacity_set 2 \<lparr>cap = 9, closed = False, que = [1, 2, 3, 4, 5 :: nat]\<rparr>) = 2
    \<and> \<not> fst (try_put 6 (capacity_set 2 \<lparr>cap = 9, closed = False, que = [1, 2, 3, 4, 5 :: nat]\<rparr>))
    \<and> fst (put [] 6 (capacity_set 2 \<lparr>cap = 9, closed = False, que = [1, 2, 3, 4, 5 :: nat]\<rparr>)) = Blocks"
  using capacity_set_never_evicts [of 2 "\<lparr>cap = 9, closed = False, que = [1, 2, 3, 4, 5 :: nat]\<rparr>" 6]
  by (simp add: size_q_def)

text \<open>
  The capacity of a queue is at least 1: the constructor with a capacity and the setter
  both take the maximum with 1, and no other operation writes \<^verbatim>\<open>cap_\<close>. (The default
  constructor sets \<^verbatim>\<open>MAX_CAPACITY\<close>.)
\<close>

lemma thread_queue_cap_positive: "1 \<le> cap (thread_queue_cap c)"
  by (simp add: thread_queue_cap_def)

lemma run_cap_positive:
  assumes "\<forall>e \<in> set es. \<forall>s. 1 \<le> cap s \<longrightarrow> 1 \<le> cap (e s)" and "1 \<le> cap q"
  shows "1 \<le> cap (run c es q)"
proof -
  have w: "1 \<le> cap (snd (wait pred es q))" for pred
    using assms by (rule wait_preserves [where P = "\<lambda>s. 1 \<le> cap s"])
  from w [of not_full] w [of not_empty] assms(2) show ?thesis
    by (cases c)
      (auto simp: put_def try_put_def try_put_for_def try_put_until_def get_def get_ptr_def
        try_get_def try_get_for_def try_get_until_def clear_def capacity_set_def close_def
        wait_for_def wait_until_eq_wait
        split: prod.splits bool.splits list.splits ptr.splits if_splits)
qed

lemma others_cap_positive: "\<forall>e \<in> set (others os). \<forall>s. 1 \<le> cap s \<longrightarrow> 1 \<le> cap (e s)"
proof -
  have "1 \<le> cap (run c [] s)" if "1 \<le> cap s" for c :: "'a op" and s
    using run_cap_positive [of "[]" s c] that by simp
  then show ?thesis by (auto simp: others_def)
qed

text \<open>
  C8 (clear discards without closing). After \<^verbatim>\<open>clear()\<close> on an open queue, whatever
  items it held, the size is 0, the queue is still open and its capacity is the same;
  a \<^verbatim>\<open>put\<close> that follows returns normally, at once, and the queue then holds exactly
  the item put. The capacity is taken to be at least 1, as it is in every queue object.
\<close>

theorem clear_keeps_open:
  assumes "\<not> closed q" and "1 \<le> cap q"
  shows "size_q (clear q) = 0
    \<and> closed (clear q) = False
    \<and> capacity (clear q) = capacity q
    \<and> put es v (clear q) = (Returns (), (clear q)\<lparr>que := [v]\<rparr>)"
proof -
  have c: "clear q = q\<lparr>que := []\<rparr>"
    by (simp add: clear_def pop_all_empty)
  from assms have "wait not_full es (clear q) = (True, clear q)"
    by (intro wait_immediate) (simp add: c not_full_def)
  with assms show ?thesis
    by (simp add: put_def c size_q_def capacity_def)
qed

theorem clear_keeps_open_witness:
  "\<not> closed \<lparr>cap = 2, closed = False, que = [1, 2 :: nat]\<rparr>
    \<and> 1 \<le> cap \<lparr>cap = 2, closed = False, que = [1, 2 :: nat]\<rparr>
    \<and> size_q (clear \<lparr>cap = 2, closed = False, que = [1, 2 :: nat]\<rparr>) = 0
    \<and> closed (clear \<lparr>cap = 2, closed = False, que = [1, 2 :: nat]\<rparr>) = False
    \<and> capacity (clear \<lparr>cap = 2, closed = False, que = [1, 2 :: nat]\<rparr>) = 2
    \<and> put [] 3 (clear \<lparr>cap = 2, closed = False, que = [1, 2 :: nat]\<rparr>)
        = (Returns (), \<lparr>cap = 2, closed = False, que = [3]\<rparr>)"
proof -
  have o: "\<not> closed \<lparr>cap = 2, closed = False, que = [1, 2 :: nat]\<rparr>" by simp
  have p: "1 \<le> cap \<lparr>cap = 2, closed = False, que = [1, 2 :: nat]\<rparr>" by simp
  from clear_keeps_open [OF o p, of "[]" 3] o p show ?thesis
    by (simp add: clear_def capacity_def)
qed

text \<open>
  C9 (the pointer variant reports a drained queue by false). When the wait of a blocking
  dequeue ends on an empty queue, that queue is closed; \<^verbatim>\<open>get(value_type*)\<close> with a
  valid destination then returns false and leaves the destination as it was, while
  \<^verbatim>\<open>get()\<close> throws \<^verbatim>\<open>queue_closed\<close>. With the null pointer \<^verbatim>\<open>get(value_type*)\<close>
  returns false as well: the two results are equal, so the result alone does not tell
  the usage error from the end of the queue.
\<close>

theorem get_ptr_drained_false:
  assumes "wait not_empty es q = (True, q')" and "que q' = []"
  shows "closed q'
    \<and> get_ptr (Ptr d) es q = (Returns False, Ptr d, q')
    \<and> get es q = (Throws queue_closed, q')
    \<and> get_ptr nullptr es q = (Returns False, nullptr, q)
    \<and> fst (get_ptr (Ptr d) es q) = fst (get_ptr nullptr es q)"
proof -
  from assms(1) have "not_empty q'" by (rule wait_returns_pred)
  with assms(2) have "closed q'" by (simp add: not_empty_def)
  with assms show ?thesis
    by (simp add: get_ptr_def get_def)
qed

theorem get_ptr_drained_false_witness:
  "wait not_empty [close] \<lparr>cap = 1, closed = False, que = [] :: nat list\<rparr>
      = (True, \<lparr>cap = 1, closed = True, que = []\<rparr>)
    \<and> que \<lparr>cap = 1, closed = True, que = [] :: nat list\<rparr> = []
    \<and> get_ptr (Ptr 0) [close] \<lparr>cap = 1, closed = False, que = [] :: nat list\<rparr>
      = (Returns False, Ptr 0, \<lparr>cap = 1, closed = True, que = []\<rparr>)
    \<and> get [close] \<lparr>cap = 1, closed = False, que = [] :: nat list\<rparr>
      = (Throws queue_closed, \<lparr>cap = 1, closed = True, que = []\<rparr>)
    \<and> get_ptr nullptr [close] \<lparr>cap = 1, closed = False, que = [] :: nat list\<rparr>
      = (Returns False, nullptr, \<lparr>cap = 1, closed = False, que = []\<rparr>)"
proof -
  have w: "wait not_empty [close] \<lparr>cap = 1, closed = False, que = [] :: nat list\<rparr>
      = (True, \<lparr>cap = 1, closed = True, que = []\<rparr>)"
    by (simp add: not_empty_def close_def)
  have e: "que \<lparr>cap = 1, closed = True, que = [] :: nat list\<rparr> = []" by simp
  from get_ptr_drained_false [OF w e, of 0] w e show ?thesis by blast
qed

text \<open>
  C10 (done by bulk discard). A closed queue that still holds items is not done, and
  \<^verbatim>\<open>clear()\<close> makes it done at once, with no dequeue.
\<close>

theorem clear_closed_is_done:
  assumes "closed q" and "que q \<noteq> []"
  shows "\<not> done_q q \<and> done_q (clear q)"
  using assms by (simp add: done_q_def is_done_def clear_def pop_all_empty)

theorem clear_closed_is_done_witness:
  "closed \<lparr>cap = 4, closed = True, que = [1, 2, 3 :: nat]\<rparr>
    \<and> que \<lparr>cap = 4, closed = True, que = [1, 2, 3 :: nat]\<rparr> \<noteq> []
    \<and> \<not> done_q \<lparr>cap = 4, closed = True, que = [1, 2, 3 :: nat]\<rparr>
    \<and> done_q (clear \<lparr>cap = 4, closed = True, que = [1, 2, 3 :: nat]\<rparr>)"
proof -
  have c: "closed \<lparr>cap = 4, closed = True, que = [1, 2, 3 :: nat]\<rparr>" by simp
  have n: "que \<lparr>cap = 4, closed = True, que = [1, 2, 3 :: nat]\<rparr> \<noteq> []" by simp
  from clear_closed_is_done [OF c n] c n show ?thesis by blast
qed

end
